theory Spec2Isabelle
  imports Main
begin

section \<open>Python values used by the provider\<close>

text \<open>
  A Python \<open>str\<close> is a sequence of Unicode code points, so a string is modelled as the
  list of its code points; its length is the number of characters, as \<open>len\<close> counts
  them. A token is a Python \<open>int\<close>.
\<close>

type_synonym pystr = "nat list"
type_synonym token = int

text \<open>
  The characters \<open>str.rstrip()\<close> removes when called without an argument: the code
  points for which \<open>str.isspace\<close> holds (tab to carriage return, the four separators
  U+001C to U+001F, space, U+0085, U+00A0, U+1680, U+2000 to U+200A, U+2028, U+2029,
  U+202F, U+205F and U+3000).
\<close>

definition is_space :: "nat \<Rightarrow> bool" where
  "is_space c \<longleftrightarrow>
     (9 \<le> c \<and> c \<le> 13) \<or> (28 \<le> c \<and> c \<le> 32) \<or> c = 133 \<or> c = 160 \<or> c = 5760 \<or>
     (8192 \<le> c \<and> c \<le> 8202) \<or> c = 8232 \<or> c = 8233 \<or> c = 8239 \<or> c = 8287 \<or> c = 12288"

text \<open>\<open>s.rstrip()\<close>: the longest prefix of \<open>s\<close> that does not end in whitespace.\<close>

definition rstrip :: "pystr \<Rightarrow> pystr" where
  "rstrip s = rev (dropWhile is_space (rev s))"

text \<open>
  \<open>xs[:k]\<close>: a slice never raises. A bound beyond the end is clipped to the length, and a
  negative bound counts from the end (clipped at the start).
\<close>

definition slice_to :: "'a list \<Rightarrow> int \<Rightarrow> 'a list" where
  "slice_to xs k =
     (if k < 0 then take (nat (int (length xs) + k)) xs else take (nat k) xs)"

text \<open>\<open>sub\<close> occurs in \<open>s\<close> at index \<open>i\<close>: \<open>s[i:i+len(sub)] == sub\<close>, wholly inside \<open>s\<close>.\<close>

definition occurs_at :: "'a list \<Rightarrow> 'a list \<Rightarrow> nat \<Rightarrow> bool" where
  "occurs_at sub s i \<longleftrightarrow> i + length sub \<le> length s \<and> take (length sub) (drop i s) = sub"

text \<open>
  \<open>s.rfind(sub)\<close>: the highest index at which \<open>sub\<close> occurs in \<open>s\<close>, and \<open>-1\<close> when it
  occurs nowhere. The candidates are tried from the right.
\<close>

fun rfind_from :: "'a list \<Rightarrow> 'a list \<Rightarrow> nat \<Rightarrow> int" where
  "rfind_from s sub 0 = (if occurs_at sub s 0 then 0 else - 1)"
| "rfind_from s sub (Suc i) =
     (if occurs_at sub s (Suc i) then int (Suc i) else rfind_from s sub i)"

definition rfind :: "'a list \<Rightarrow> 'a list \<Rightarrow> int" where
  "rfind s sub = rfind_from s sub (length s)"

section \<open>The provider\<close>

text \<open>
  The fields \<open>__init__\<close> sets that are plain data, and the tokenizer. The tokenizer is an
  external collaborator: only its \<open>decode\<close> is used here, and it may raise, so it returns
  either its own error or the decoded text.
\<close>

record 'e provider =
  model_name :: string
  api_key :: "string option"
  base_url :: "string option"
  tokenizer_decode :: "token list \<Rightarrow> 'e + pystr"

text \<open>
  The list in \<open>decode_tokens\<close>: \<open>'. '\<close>, \<open>'! '\<close>, \<open>'? '\<close> and the full-width
  U+3002, U+FF01, U+FF1F.
\<close>

definition sentence_endings :: "pystr list" where
  "sentence_endings = [[46, 32], [33, 32], [63, 32], [12290], [65281], [65311]]"

text \<open>
  \<open>decode_tokens(self, tokens, context_length=None, preserve_sentence=False)\<close>. An
  exception of the tokenizer leaves the method at the call, so it is the result. The
  loop over \<open>sentence_endings\<close> is the fold that updates \<open>last_end\<close>.
\<close>

definition decode_tokens ::
  "'e provider \<Rightarrow> token list \<Rightarrow> int option \<Rightarrow> bool \<Rightarrow> 'e + pystr" where
  "decode_tokens self tokens context_length preserve_sentence =
     (case context_length of
        None \<Rightarrow> tokenizer_decode self tokens
      | Some n \<Rightarrow>
          (case tokenizer_decode self (slice_to tokens n) of
             Inl e \<Rightarrow> Inl e
           | Inr truncated_text \<Rightarrow>
               if \<not> preserve_sentence then Inr (rstrip truncated_text)
               else
                 let last_end =
                   fold (\<lambda>ending last_end. max last_end (rfind truncated_text ending))
                     sentence_endings (- 1)
                 in if last_end \<noteq> - 1
                    then Inr (rstrip (slice_to truncated_text (last_end + 1)))
                    else Inr (rstrip truncated_text)))"

section \<open>Notions used to state the properties\<close>

text \<open>The value of \<open>last_end\<close> when the loop over the endings \<open>es\<close> is done.\<close>

definition last_end_of :: "pystr list \<Rightarrow> pystr \<Rightarrow> int" where
  "last_end_of es s = fold (\<lambda>ending last_end. max last_end (rfind s ending)) es (- 1)"

text \<open>
  What \<open>last_end\<close> stands for: \<open>-1\<close> when no ending of \<open>es\<close> occurs in \<open>s\<close>, and
  otherwise the greatest index at which one of them starts.
\<close>

definition found_at :: "pystr list \<Rightarrow> pystr \<Rightarrow> int \<Rightarrow> bool" where
  "found_at es s L \<longleftrightarrow>
     (L = - 1 \<and> (\<forall>e\<in>set es. \<forall>i. \<not> occurs_at e s i)) \<or>
     (\<exists>k e. L = int k \<and> e \<in> set es \<and> occurs_at e s k \<and>
        (\<forall>e'\<in>set es. \<forall>i. occurs_at e' s i \<longrightarrow> i \<le> k))"

text \<open>
  The specification's reading of the truncation, independent of the loop: the ending
  indices (exclusive) of all occurrences of all markers in \<open>s\<close>; the sentence snap keeps
  the text up to and including the marker whose occurrence ends last; the stripping
  rule is the right-strip when the flag is false, and the snap followed by the
  right-strip when it is true.
\<close>

definition marker_ends :: "pystr \<Rightarrow> nat list" where
  "marker_ends s =
     [i + length e. e \<leftarrow> sentence_endings, i \<leftarrow> [0..<Suc (length s)], occurs_at e s i]"

definition sentence_snap :: "pystr \<Rightarrow> pystr" where
  "sentence_snap s =
     (if marker_ends s = [] then s else take (Max (set (marker_ends s))) s)"

definition stripping_rule :: "bool \<Rightarrow> pystr \<Rightarrow> pystr" where
  "stripping_rule preserve_sentence s =
     (if preserve_sentence then rstrip (sentence_snap s) else rstrip s)"

text \<open>
  Concrete instances. The tokenizer is outside the provider's code, so the instances
  use two stand-ins for it: one decodes every token to the code point of that number
  and never fails, the other rejects a negative token identifier as the real one
  rejects an unknown identifier.
\<close>

datatype tokenizer_error = InvalidToken token

definition codepoint_decode :: "token list \<Rightarrow> tokenizer_error + pystr" where
  "codepoint_decode ts = Inr (map nat ts)"

definition strict_decode :: "token list \<Rightarrow> tokenizer_error + pystr" where
  "strict_decode ts =
     (case filter (\<lambda>t. t < 0) ts of [] \<Rightarrow> Inr (map nat ts) | t # _ \<Rightarrow> Inl (InvalidToken t))"

definition provider_with ::
  "(token list \<Rightarrow> tokenizer_error + pystr) \<Rightarrow> tokenizer_error provider" where
  "provider_with dec =
     \<lparr>model_name = ''gpt-3.5-turbo-0125'', api_key = None, base_url = None,
      tokenizer_decode = dec\<rparr>"

text \<open>An ASCII literal as a Python string, and as the tokens that decode to it.\<close>

definition ascii :: "string \<Rightarrow> pystr" where
  "ascii cs = map of_char cs"

definition ascii_tokens :: "string \<Rightarrow> token list" where
  "ascii_tokens cs = map of_char cs"

section \<open>Facts about the string operations\<close>

lemma rstrip_Nil: "rstrip [] = []"
  by (simp add: rstrip_def)

lemma rstrip_snoc: "rstrip (xs @ [c]) = (if is_space c then rstrip xs else xs @ [c])"
  by (simp add: rstrip_def)

lemma rstrip_decomp: "\<exists>ws. s = rstrip s @ ws \<and> (\<forall>c\<in>set ws. is_space c)"
proof -
  have "rev s = takeWhile is_space (rev s) @ dropWhile is_space (rev s)" by simp
  then have "s = rev (dropWhile is_space (rev s)) @ rev (takeWhile is_space (rev s))"
    by (metis rev_append rev_rev_ident)
  moreover have "\<forall>c\<in>set (rev (takeWhile is_space (rev s))). is_space c"
    by (auto dest: set_takeWhileD)
  ultimately show ?thesis unfolding rstrip_def by blast
qed

lemma rstrip_last: "rstrip s \<noteq> [] \<Longrightarrow> \<not> is_space (last (rstrip s))"
  unfolding rstrip_def by (simp add: last_rev hd_dropWhile)

lemma length_rstrip_le: "length (rstrip s) \<le> length s"
  using length_dropWhile_le [of is_space "rev s"] by (simp add: rstrip_def)

lemma rstrip_append_spaces: "\<forall>c\<in>set ws. is_space c \<Longrightarrow> rstrip (xs @ ws) = rstrip xs"
  unfolding rstrip_def by (simp add: dropWhile_append)

lemma rstrip_idem: "rstrip (rstrip s) = rstrip s"
  unfolding rstrip_def by (simp add: dropWhile_idem)

lemma rstrip_take_le: "length (rstrip (take k s)) \<le> length (rstrip s)"
proof -
  obtain ws where s: "s = rstrip s @ ws" and ws: "\<forall>c\<in>set ws. is_space c"
    using rstrip_decomp by blast
  show ?thesis
  proof (cases "k \<le> length (rstrip s)")
    case True
    have "length (rstrip (take k s)) \<le> length (take k s)" by (rule length_rstrip_le)
    also have "\<dots> \<le> k" by simp
    finally show ?thesis using True by simp
  next
    case False
    then have "take k s = rstrip s @ take (k - length (rstrip s)) ws"
      using s by (metis take_append take_all nat_le_linear)
    moreover have "\<forall>c\<in>set (take (k - length (rstrip s)) ws). is_space c"
      using ws by (auto dest: in_set_takeD)
    ultimately have "rstrip (take k s) = rstrip (rstrip s)"
      by (simp add: rstrip_append_spaces)
    then show ?thesis by (simp add: rstrip_idem)
  qed
qed

lemma occurs_at_le: "occurs_at sub s i \<Longrightarrow> i \<le> length s"
  by (simp add: occurs_at_def)

lemma rfind_from_cases:
  "(rfind_from s sub n = - 1 \<and> (\<forall>i\<le>n. \<not> occurs_at sub s i)) \<or>
   (\<exists>k\<le>n. rfind_from s sub n = int k \<and> occurs_at sub s k \<and>
      (\<forall>i\<le>n. occurs_at sub s i \<longrightarrow> i \<le> k))"
proof (induction n)
  case 0
  then show ?case by auto
next
  case (Suc n)
  show ?case
  proof (cases "occurs_at sub s (Suc n)")
    case True
    then show ?thesis by auto
  next
    case False
    with Suc show ?thesis by (auto simp: le_Suc_eq)
  qed
qed

lemma rfind_cases:
  "(rfind s sub = - 1 \<and> (\<forall>i. \<not> occurs_at sub s i)) \<or>
   (\<exists>k. rfind s sub = int k \<and> occurs_at sub s k \<and> (\<forall>i. occurs_at sub s i \<longrightarrow> i \<le> k))"
  using rfind_from_cases [of s sub "length s"] occurs_at_le [of sub s]
  unfolding rfind_def by blast

lemma found_at_step:
  assumes "found_at es s L"
  shows "found_at (es @ [x]) s (max L (rfind s x))"
proof -
  consider (none) "rfind s x = - 1" "\<forall>i. \<not> occurs_at x s i"
    | (some) k where "rfind s x = int k" "occurs_at x s k" "\<forall>i. occurs_at x s i \<longrightarrow> i \<le> k"
    using rfind_cases [of s x] by blast
  then show ?thesis
  proof cases
    case none
    from assms show ?thesis
      unfolding found_at_def
    proof (elim disjE exE conjE)
      assume "L = - 1" "\<forall>e\<in>set es. \<forall>i. \<not> occurs_at e s i"
      with none show "(max L (rfind s x) = - 1 \<and> (\<forall>e\<in>set (es @ [x]). \<forall>i. \<not> occurs_at e s i)) \<or>
        (\<exists>k e. max L (rfind s x) = int k \<and> e \<in> set (es @ [x]) \<and> occurs_at e s k \<and>
          (\<forall>e'\<in>set (es @ [x]). \<forall>i. occurs_at e' s i \<longrightarrow> i \<le> k))"
        by simp
    next
      fix k e
      assume h: "L = int k" "e \<in> set es" "occurs_at e s k"
        "\<forall>e'\<in>set es. \<forall>i. occurs_at e' s i \<longrightarrow> i \<le> k"
      have "max L (rfind s x) = int k \<and> e \<in> set (es @ [x]) \<and> occurs_at e s k \<and>
          (\<forall>e'\<in>set (es @ [x]). \<forall>i. occurs_at e' s i \<longrightarrow> i \<le> k)"
        using h none by auto
      then show "(max L (rfind s x) = - 1 \<and> (\<forall>e\<in>set (es @ [x]). \<forall>i. \<not> occurs_at e s i)) \<or>
        (\<exists>k e. max L (rfind s x) = int k \<and> e \<in> set (es @ [x]) \<and> occurs_at e s k \<and>
          (\<forall>e'\<in>set (es @ [x]). \<forall>i. occurs_at e' s i \<longrightarrow> i \<le> k))"
        by blast
    qed
  next
    case some
    from assms show ?thesis
      unfolding found_at_def
    proof (elim disjE exE conjE)
      assume h: "L = - 1" "\<forall>e\<in>set es. \<forall>i. \<not> occurs_at e s i"
      have "max L (rfind s x) = int k \<and> x \<in> set (es @ [x]) \<and> occurs_at x s k \<and>
          (\<forall>e'\<in>set (es @ [x]). \<forall>i. occurs_at e' s i \<longrightarrow> i \<le> k)"
        using h some by auto
      then show "(max L (rfind s x) = - 1 \<and> (\<forall>e\<in>set (es @ [x]). \<forall>i. \<not> occurs_at e s i)) \<or>
        (\<exists>k e. max L (rfind s x) = int k \<and> e \<in> set (es @ [x]) \<and> occurs_at e s k \<and>
          (\<forall>e'\<in>set (es @ [x]). \<forall>i. occurs_at e' s i \<longrightarrow> i \<le> k))"
        by blast
    next
      fix k' e
      assume h: "L = int k'" "e \<in> set es" "occurs_at e s k'"
        "\<forall>e'\<in>set es. \<forall>i. occurs_at e' s i \<longrightarrow> i \<le> k'"
      show "(max L (rfind s x) = - 1 \<and> (\<forall>e\<in>set (es @ [x]). \<forall>i. \<not> occurs_at e s i)) \<or>
        (\<exists>k e. max L (rfind s x) = int k \<and> e \<in> set (es @ [x]) \<and> occurs_at e s k \<and>
          (\<forall>e'\<in>set (es @ [x]). \<forall>i. occurs_at e' s i \<longrightarrow> i \<le> k))"
      proof (cases "k \<le> k'")
        case True
        have "max L (rfind s x) = int k' \<and> e \<in> set (es @ [x]) \<and> occurs_at e s k' \<and>
          (\<forall>e'\<in>set (es @ [x]). \<forall>i. occurs_at e' s i \<longrightarrow> i \<le> k')"
          using h some True by (auto dest: order_trans)
        then show ?thesis by blast
      next
        case False
        have "\<forall>e'\<in>set (es @ [x]). \<forall>i. occurs_at e' s i \<longrightarrow> i \<le> k"
        proof (intro ballI allI impI)
          fix e' i
          assume mem: "e' \<in> set (es @ [x])" and occ: "occurs_at e' s i"
          from mem consider "e' \<in> set es" | "e' = x" by auto
          then show "i \<le> k"
          proof cases
            case 1
            with h(4) occ have "i \<le> k'" by blast
            with False show ?thesis by simp
          next
            case 2
            with some(3) occ show ?thesis by blast
          qed
        qed
        moreover have "max L (rfind s x) = int k"
          using h(1) some(1) False by simp
        ultimately have "max L (rfind s x) = int k \<and> x \<in> set (es @ [x]) \<and>
          occurs_at x s k \<and> (\<forall>e'\<in>set (es @ [x]). \<forall>i. occurs_at e' s i \<longrightarrow> i \<le> k)"
          using some(2) by simp
        then show ?thesis by blast
      qed
    qed
  qed
qed

lemma found_at_last_end_of: "found_at es s (last_end_of es s)"
proof (induction es rule: rev_induct)
  case Nil
  show ?case by (simp add: last_end_of_def found_at_def)
next
  case (snoc x es)
  have "last_end_of (es @ [x]) s = max (last_end_of es s) (rfind s x)"
    by (simp add: last_end_of_def)
  with found_at_step [OF snoc] show ?case by simp
qed

lemma sentence_endings_shape:
  "e \<in> set sentence_endings \<Longrightarrow> \<exists>c. \<not> is_space c \<and> c \<noteq> 32 \<and> (e = [c] \<or> e = [c, 32])"
  by (auto simp: sentence_endings_def is_space_def)

lemma sentence_endings_hd_inj:
  "e \<in> set sentence_endings \<Longrightarrow> e' \<in> set sentence_endings \<Longrightarrow> hd e = hd e' \<Longrightarrow> e = e'"
  by (auto simp: sentence_endings_def)

lemma occurs_at_take:
  "occurs_at e s k \<Longrightarrow> take (k + length e) s = take k s @ e"
  by (simp add: occurs_at_def take_add)

lemma occurs_at_nth:
  "occurs_at e s k \<Longrightarrow> j < length e \<Longrightarrow> s ! (k + j) = e ! j"
  unfolding occurs_at_def
  by (metis add_leD1 le_add_diff_inverse nth_drop nth_take add_le_imp_le_diff)

lemma occurs_at_take_Suc:
  "occurs_at e s k \<Longrightarrow> e \<noteq> [] \<Longrightarrow> take (Suc k) s = take k s @ [hd e]"
proof -
  assume occ: "occurs_at e s k" and ne: "e \<noteq> []"
  then have "k < length s" by (cases e) (auto simp: occurs_at_def)
  moreover have "s ! k = hd e"
    using occurs_at_nth [OF occ, of 0] ne by (simp add: hd_conv_nth)
  ultimately show ?thesis by (simp add: take_Suc_conv_app_nth)
qed

lemma slice_to_nonneg: "0 \<le> k \<Longrightarrow> slice_to xs k = take (nat k) xs"
  by (simp add: slice_to_def)

lemma slice_to_all: "int (length xs) \<le> k \<Longrightarrow> slice_to xs k = xs"
  by (simp add: slice_to_def)


section \<open>The loop and the stripping rule\<close>

lemma decode_tokens_Some:
  "decode_tokens self T (Some n) ps =
     (case tokenizer_decode self (slice_to T n) of
        Inl e \<Rightarrow> Inl e
      | Inr s \<Rightarrow>
          Inr (if ps \<and> last_end_of sentence_endings s \<noteq> - 1
               then rstrip (slice_to s (last_end_of sentence_endings s + 1))
               else rstrip s))"
  by (simp add: decode_tokens_def last_end_of_def Let_def split: sum.splits)

lemma last_end_none_iff:
  "last_end_of sentence_endings s = - 1 \<longleftrightarrow>
     \<not> (\<exists>e\<in>set sentence_endings. \<exists>i. occurs_at e s i)"
  using found_at_last_end_of [of sentence_endings s] unfolding found_at_def by auto

lemma last_end_some:
  assumes "last_end_of sentence_endings s \<noteq> - 1"
  obtains k e where "last_end_of sentence_endings s = int k" "e \<in> set sentence_endings"
    "occurs_at e s k" "\<forall>e'\<in>set sentence_endings. \<forall>i. occurs_at e' s i \<longrightarrow> i \<le> k"
  using found_at_last_end_of [of sentence_endings s] assms unfolding found_at_def by blast

lemma occurs_at_hd:
  assumes "e \<in> set sentence_endings" "occurs_at e s k"
  shows "k < length s" "s ! k = hd e"
proof -
  from sentence_endings_shape [OF assms(1)] have ne: "e \<noteq> []" by auto
  with assms(2) show "k < length s" by (cases e) (auto simp: occurs_at_def)
  from occurs_at_nth [OF assms(2), of 0] ne show "s ! k = hd e"
    by (simp add: hd_conv_nth)
qed

lemma greatest_end:
  assumes e: "e \<in> set sentence_endings" "occurs_at e s k"
    and top: "\<forall>e'\<in>set sentence_endings. \<forall>i. occurs_at e' s i \<longrightarrow> i \<le> k"
    and e': "e' \<in> set sentence_endings" "occurs_at e' s i"
  shows "i + length e' \<le> k + length e"
proof (cases "i = k")
  case True
  have "hd e = hd e'"
    using occurs_at_hd(2) [OF e] occurs_at_hd(2) [OF e'] True by simp
  with e(1) e'(1) have "e = e'" by (rule sentence_endings_hd_inj)
  with True show ?thesis by simp
next
  case False
  with top e' have "i < k" by (meson le_neq_implies_less)
  moreover from sentence_endings_shape [OF e'(1)] have "length e' \<le> 2" by auto
  moreover from sentence_endings_shape [OF e(1)] have "1 \<le> length e" by auto
  ultimately show ?thesis by linarith
qed

lemma snap_text:
  assumes "e \<in> set sentence_endings" "occurs_at e s k"
  shows "rstrip (take (Suc k) s) = take (Suc k) s"
    and "rstrip (take (k + length e) s) = take (Suc k) s"
    and "last (take (Suc k) s) = hd e"
proof -
  from sentence_endings_shape [OF assms(1)] obtain c
    where c: "\<not> is_space c" "e = [c] \<or> e = [c, 32]" by blast
  then have ne: "e \<noteq> []" and hd: "hd e = c" by auto
  have suc: "take (Suc k) s = take k s @ [c]"
    using occurs_at_take_Suc [OF assms(2) ne] hd by simp
  show "rstrip (take (Suc k) s) = take (Suc k) s"
    using c(1) by (simp add: suc rstrip_snoc)
  show "last (take (Suc k) s) = hd e"
    by (simp add: suc hd)
  have sp: "is_space 32" by (simp add: is_space_def)
  from c(2) show "rstrip (take (k + length e) s) = take (Suc k) s"
  proof
    assume "e = [c]"
    then show ?thesis
      using occurs_at_take [OF assms(2)] c(1) by (simp add: suc rstrip_snoc)
  next
    assume "e = [c, 32]"
    then have "take (k + length e) s = (take k s @ [c]) @ [32]"
      using occurs_at_take [OF assms(2)] by simp
    then show ?thesis
      using c(1) sp by (simp only: rstrip_snoc suc if_True if_False)
  qed
qed

lemma marker_ends_set:
  "set (marker_ends s) =
     {i + length e | e i. e \<in> set sentence_endings \<and> occurs_at e s i}"
  using occurs_at_le [of _ s] by (fastforce simp: marker_ends_def less_Suc_eq_le)

lemma marker_ends_Nil_iff:
  "marker_ends s = [] \<longleftrightarrow> \<not> (\<exists>e\<in>set sentence_endings. \<exists>i. occurs_at e s i)"
proof -
  have "marker_ends s = [] \<longleftrightarrow> set (marker_ends s) = {}" by simp
  also have "\<dots> \<longleftrightarrow> \<not> (\<exists>e\<in>set sentence_endings. \<exists>i. occurs_at e s i)"
    unfolding marker_ends_set by blast
  finally show ?thesis .
qed

lemma Max_marker_ends:
  assumes e: "e \<in> set sentence_endings" "occurs_at e s k"
    and top: "\<forall>e'\<in>set sentence_endings. \<forall>i. occurs_at e' s i \<longrightarrow> i \<le> k"
  shows "Max (set (marker_ends s)) = k + length e"
proof (rule Max_eqI)
  show "finite (set (marker_ends s))" by simp
  show "k + length e \<in> set (marker_ends s)"
    unfolding marker_ends_set using e by blast
  fix y
  assume "y \<in> set (marker_ends s)"
  then obtain e' i where "y = i + length e'" "e' \<in> set sentence_endings" "occurs_at e' s i"
    unfolding marker_ends_set by blast
  with greatest_end [OF e top] show "y \<le> k + length e" by simp
qed

lemma loop_refines_rule:
  "(if ps \<and> last_end_of sentence_endings s \<noteq> - 1
    then rstrip (slice_to s (last_end_of sentence_endings s + 1))
    else rstrip s) = stripping_rule ps s"
proof (cases "ps \<and> last_end_of sentence_endings s \<noteq> - 1")
  case False
  then show ?thesis
    using last_end_none_iff [of s] marker_ends_Nil_iff [of s]
    by (auto simp: stripping_rule_def sentence_snap_def)
next
  case True
  then obtain k e where ke: "last_end_of sentence_endings s = int k"
    "e \<in> set sentence_endings" "occurs_at e s k"
    "\<forall>e'\<in>set sentence_endings. \<forall>i. occurs_at e' s i \<longrightarrow> i \<le> k"
    using last_end_some by blast
  have ne: "marker_ends s \<noteq> []"
    using marker_ends_Nil_iff [of s] ke(2,3) by blast
  have "slice_to s (last_end_of sentence_endings s + 1) = take (Suc k) s"
    by (simp add: ke(1) slice_to_def nat_add_distrib)
  moreover have "sentence_snap s = take (k + length e) s"
    using ne Max_marker_ends [OF ke(2,3,4)] by (simp add: sentence_snap_def)
  ultimately show ?thesis
    using True snap_text(1,2) [OF ke(2,3)] by (simp add: stripping_rule_def)
qed

lemma decode_tokens_Some_rule:
  "decode_tokens self T (Some n) ps =
     (case tokenizer_decode self (slice_to T n) of
        Inl e \<Rightarrow> Inl e
      | Inr s \<Rightarrow> Inr (stripping_rule ps s))"
  unfolding decode_tokens_Some loop_refines_rule ..

lemma rstrip_id: "s = [] \<or> \<not> is_space (last s) \<Longrightarrow> rstrip s = s"
  by (cases s rule: rev_cases) (auto simp: rstrip_Nil rstrip_snoc)

lemma slice_to_Nil: "slice_to [] k = []"
  by (simp add: slice_to_def)

lemma stripping_rule_Nil: "stripping_rule ps [] = []"
  by (simp add: stripping_rule_def sentence_snap_def rstrip_Nil)


text \<open>The definitions that a concrete instance unfolds.\<close>

lemmas eval_defs =
  decode_tokens_def provider_with_def codepoint_decode_def strict_decode_def
  ascii_def ascii_tokens_def slice_to_def sentence_endings_def rfind_def occurs_at_def
  rstrip_def is_space_def

section \<open>Properties of \<open>decode_tokens\<close>\<close>

text \<open>
  C2. Without a context length the result is exactly what the tokenizer decodes from
  the whole token list, whatever the flag: nothing is cut, snapped or stripped.
\<close>

theorem decode_tokens_no_limit:
  "decode_tokens self T None preserve_sentence = tokenizer_decode self T"
  by (simp add: decode_tokens_def)

text \<open>
  C1. With a context length \<open>m\<close> and the flag set, let \<open>s\<close> be the text decoded from the
  first \<open>m\<close> tokens. If some marker occurs in \<open>s\<close>, the result is taken at a marker
  occurrence whose ending index is the greatest among all occurrences of all markers:
  it is \<open>s\<close> up to and including that marker, right-stripped, which is \<open>s\<close> up to and
  including the terminator character. If no marker occurs, the result is \<open>s\<close>
  right-stripped, the same as with the flag unset.
\<close>

theorem decode_tokens_preserve_sentence:
  assumes "0 \<le> m" and "tokenizer_decode self (take (nat m) T) = Inr s"
  shows "((\<exists>e\<in>set sentence_endings. \<exists>i. occurs_at e s i) \<longrightarrow>
            (\<exists>e\<in>set sentence_endings. \<exists>i. occurs_at e s i \<and>
               (\<forall>e'\<in>set sentence_endings. \<forall>j. occurs_at e' s j \<longrightarrow>
                  j + length e' \<le> i + length e) \<and>
               decode_tokens self T (Some m) True = Inr (rstrip (take (i + length e) s)) \<and>
               rstrip (take (i + length e) s) = take (Suc i) s)) \<and>
         (\<not> (\<exists>e\<in>set sentence_endings. \<exists>i. occurs_at e s i) \<longrightarrow>
            decode_tokens self T (Some m) True = Inr (rstrip s) \<and>
            decode_tokens self T (Some m) True = decode_tokens self T (Some m) False)"
proof (intro conjI impI)
  have dec: "tokenizer_decode self (slice_to T m) = Inr s"
    using assms by (simp add: slice_to_nonneg)
  {
    assume "\<exists>e\<in>set sentence_endings. \<exists>i. occurs_at e s i"
    then have "last_end_of sentence_endings s \<noteq> - 1"
      by (simp add: last_end_none_iff)
    then obtain k e where ke: "last_end_of sentence_endings s = int k"
      "e \<in> set sentence_endings" "occurs_at e s k"
      "\<forall>e'\<in>set sentence_endings. \<forall>i. occurs_at e' s i \<longrightarrow> i \<le> k"
      using last_end_some by blast
    have top: "\<forall>e'\<in>set sentence_endings. \<forall>j. occurs_at e' s j \<longrightarrow>
        j + length e' \<le> k + length e"
      using greatest_end [OF ke(2,3,4)] by blast
    have "slice_to s (int k + 1) = take (Suc k) s"
      by (simp add: slice_to_def nat_add_distrib)
    then have "decode_tokens self T (Some m) True = Inr (take (Suc k) s)"
      using dec ke(1) snap_text(1) [OF ke(2,3)] by (simp add: decode_tokens_Some)
    then have "decode_tokens self T (Some m) True = Inr (rstrip (take (k + length e) s))"
      using snap_text(2) [OF ke(2,3)] by simp
    with ke(2,3) top snap_text(2) [OF ke(2,3)]
    show "\<exists>e\<in>set sentence_endings. \<exists>i. occurs_at e s i \<and>
        (\<forall>e'\<in>set sentence_endings. \<forall>j. occurs_at e' s j \<longrightarrow> j + length e' \<le> i + length e) \<and>
        decode_tokens self T (Some m) True = Inr (rstrip (take (i + length e) s)) \<and>
        rstrip (take (i + length e) s) = take (Suc i) s"
      by blast
  }
  {
    assume "\<not> (\<exists>e\<in>set sentence_endings. \<exists>i. occurs_at e s i)"
    then have none: "last_end_of sentence_endings s = - 1"
      by (simp add: last_end_none_iff)
    show "decode_tokens self T (Some m) True = Inr (rstrip s)"
      using dec none by (simp add: decode_tokens_Some)
    show "decode_tokens self T (Some m) True = decode_tokens self T (Some m) False"
      using dec none by (simp add: decode_tokens_Some)
  }
qed

theorem decode_tokens_preserve_sentence_witness:
  "(0::int) \<le> 6 \<and>
   tokenizer_decode (provider_with codepoint_decode)
     (take (nat 6) (ascii_tokens ''Hi. Go on'')) = Inr (ascii ''Hi. Go'') \<and>
   occurs_at [46, 32] (ascii ''Hi. Go'') 2 \<and>
   decode_tokens (provider_with codepoint_decode) (ascii_tokens ''Hi. Go on'') (Some 6) True
     = Inr (ascii ''Hi.'') \<and>
   tokenizer_decode (provider_with codepoint_decode)
     (take (nat 6) (ascii_tokens ''No end  '')) = Inr (ascii ''No end'') \<and>
   last_end_of sentence_endings (ascii ''No end'') = - 1 \<and>
   decode_tokens (provider_with codepoint_decode) (ascii_tokens ''No end  '') (Some 6) True
     = decode_tokens (provider_with codepoint_decode) (ascii_tokens ''No end  '') (Some 6) False"
proof -
  have m: "(0::int) \<le> 6" by simp
  have d1: "tokenizer_decode (provider_with codepoint_decode)
      (take (nat 6) (ascii_tokens ''Hi. Go on'')) = Inr (ascii ''Hi. Go'')"
    by (simp add: eval_defs)
  have o1: "occurs_at [46, 32] (ascii ''Hi. Go'') 2"
    by (simp add: eval_defs)
  have r1: "decode_tokens (provider_with codepoint_decode) (ascii_tokens ''Hi. Go on'')
      (Some 6) True = Inr (ascii ''Hi.'')"
    by (simp add: eval_defs)
  have d2: "tokenizer_decode (provider_with codepoint_decode)
      (take (nat 6) (ascii_tokens ''No end  '')) = Inr (ascii ''No end'')"
    by (simp add: eval_defs)
  have n2: "last_end_of sentence_endings (ascii ''No end'') = - 1"
    by (simp add: last_end_of_def eval_defs)
  then have "\<not> (\<exists>e\<in>set sentence_endings. \<exists>i. occurs_at e (ascii ''No end'') i)"
    using last_end_none_iff [of "ascii ''No end''"] by blast
  with decode_tokens_preserve_sentence [OF m d2]
  have r2: "decode_tokens (provider_with codepoint_decode) (ascii_tokens ''No end  '')
      (Some 6) True
    = decode_tokens (provider_with codepoint_decode) (ascii_tokens ''No end  '') (Some 6) False"
    by blast
  from m d1 o1 r1 d2 n2 r2 show ?thesis by (intro conjI)
qed

text \<open>
  C3 (as amended). A context length greater than the number of tokens decodes the same
  full token list as no limit does, and returns that text with the stripping rule of
  the flag applied. The two results are the same exactly when the rule leaves the full
  text unchanged, as it does with the flag unset on a text without trailing whitespace.
\<close>

theorem decode_tokens_beyond_length:
  assumes "int (length T) < m"
  shows "decode_tokens self T (Some m) ps =
           (case decode_tokens self T None ps of
              Inl e \<Rightarrow> Inl e | Inr full \<Rightarrow> Inr (stripping_rule ps full)) \<and>
         (decode_tokens self T (Some m) ps = decode_tokens self T None ps \<longleftrightarrow>
            (case tokenizer_decode self T of
               Inl e \<Rightarrow> True | Inr full \<Rightarrow> stripping_rule ps full = full)) \<and>
         (\<forall>full. tokenizer_decode self T = Inr full \<and> \<not> ps \<and>
              (full = [] \<or> \<not> is_space (last full)) \<longrightarrow>
            decode_tokens self T (Some m) ps = decode_tokens self T None ps)"
proof -
  have all: "slice_to T m = T" using assms by (simp add: slice_to_all)
  have none: "decode_tokens self T None ps = tokenizer_decode self T"
    by (simp add: decode_tokens_def)
  have some: "decode_tokens self T (Some m) ps =
      (case tokenizer_decode self T of Inl e \<Rightarrow> Inl e | Inr full \<Rightarrow> Inr (stripping_rule ps full))"
    by (simp add: decode_tokens_Some_rule all)
  show ?thesis
  proof (cases "tokenizer_decode self T")
    case (Inl e)
    then show ?thesis unfolding none some by simp
  next
    case (Inr full)
    then show ?thesis unfolding none some
      by (simp add: stripping_rule_def rstrip_id)
  qed
qed

theorem decode_tokens_beyond_length_witness:
  "int (length (ascii_tokens ''ab'')) < 5 \<and>
   tokenizer_decode (provider_with codepoint_decode) (ascii_tokens ''ab'') = Inr (ascii ''ab'') \<and>
   \<not> is_space (last (ascii ''ab'')) \<and>
   decode_tokens (provider_with codepoint_decode) (ascii_tokens ''ab'') (Some 5) False
     = decode_tokens (provider_with codepoint_decode) (ascii_tokens ''ab'') None False"
proof -
  have h: "int (length (ascii_tokens ''ab'')) < 5" by (simp add: ascii_tokens_def)
  have d: "tokenizer_decode (provider_with codepoint_decode) (ascii_tokens ''ab'')
      = Inr (ascii ''ab'')"
    by (simp add: eval_defs)
  have w: "\<not> is_space (last (ascii ''ab''))" by (simp add: eval_defs)
  from decode_tokens_beyond_length [OF h, where self = "provider_with codepoint_decode"
      and ps = False] d w
  have "decode_tokens (provider_with codepoint_decode) (ascii_tokens ''ab'') (Some 5) False
     = decode_tokens (provider_with codepoint_decode) (ascii_tokens ''ab'') None False"
    by blast
  with h d w show ?thesis by (intro conjI)
qed

text \<open>
  C3 as stated (a limit beyond the length behaves as no limit) fails: two tokens decode
  to \<open>'a '\<close>; without a limit the trailing space is returned, with the limit 5 it is
  stripped, under either flag.
\<close>

theorem decode_tokens_beyond_length_counterexample:
  "int (length [97, 32 :: int]) < 5 \<and>
   decode_tokens (provider_with codepoint_decode) [97, 32] (Some 5) False
     \<noteq> decode_tokens (provider_with codepoint_decode) [97, 32] None False \<and>
   decode_tokens (provider_with codepoint_decode) [97, 32] (Some 5) True
     \<noteq> decode_tokens (provider_with codepoint_decode) [97, 32] None True"
  by (simp add: eval_defs)

text \<open>
  C4. A context length of at least the number of tokens gives the full decoded text
  with the stripping rule of the flag applied: right-stripped when the flag is unset,
  snapped to the last sentence boundary and then right-stripped when it is set.
\<close>

theorem decode_tokens_limit_covers_all:
  "int (length T) \<le> m \<Longrightarrow>
     decode_tokens self T (Some m) ps =
       (case tokenizer_decode self T of
          Inl e \<Rightarrow> Inl e | Inr full \<Rightarrow> Inr (stripping_rule ps full))"
  by (simp add: decode_tokens_Some_rule slice_to_all)

theorem decode_tokens_limit_covers_all_witness:
  "int (length (ascii_tokens ''Hi. Go'')) \<le> 6 \<and>
   decode_tokens (provider_with codepoint_decode) (ascii_tokens ''Hi. Go'') (Some 6) True
     = Inr (stripping_rule True (ascii ''Hi. Go'')) \<and>
   decode_tokens (provider_with codepoint_decode) (ascii_tokens ''Hi. Go'') (Some 6) True
     = Inr (ascii ''Hi.'')"
proof -
  have h: "int (length (ascii_tokens ''Hi. Go'')) \<le> 6" by (simp add: ascii_tokens_def)
  have d: "tokenizer_decode (provider_with codepoint_decode) (ascii_tokens ''Hi. Go'')
      = Inr (ascii ''Hi. Go'')"
    by (simp add: eval_defs)
  have r: "decode_tokens (provider_with codepoint_decode) (ascii_tokens ''Hi. Go'') (Some 6) True
     = Inr (stripping_rule True (ascii ''Hi. Go''))"
    using decode_tokens_limit_covers_all [OF h, where self = "provider_with codepoint_decode"
        and ps = True]
    by (simp only: d sum.case)
  have e: "decode_tokens (provider_with codepoint_decode) (ascii_tokens ''Hi. Go'') (Some 6) True
     = Inr (ascii ''Hi.'')"
    by (simp add: eval_defs)
  from h r e show ?thesis by (intro conjI)
qed

text \<open>
  C5. With a context length \<open>m\<close> and the flag unset, the result is the right-stripped
  decoding of the first \<open>m\<close> tokens; when there are no more than \<open>m\<close> tokens that is
  the whole list, and the slice itself raises nothing.
\<close>

theorem decode_tokens_plain_truncation:
  assumes "0 \<le> m"
  shows "decode_tokens self T (Some m) False =
           (case tokenizer_decode self (take (nat m) T) of
              Inl e \<Rightarrow> Inl e | Inr s \<Rightarrow> Inr (rstrip s)) \<and>
         (int (length T) \<le> m \<longrightarrow>
            decode_tokens self T (Some m) False =
              (case tokenizer_decode self T of Inl e \<Rightarrow> Inl e | Inr s \<Rightarrow> Inr (rstrip s)))"
proof (intro conjI impI)
  show "decode_tokens self T (Some m) False =
      (case tokenizer_decode self (take (nat m) T) of
         Inl e \<Rightarrow> Inl e | Inr s \<Rightarrow> Inr (rstrip s))"
    using assms
    by (simp add: decode_tokens_Some_rule slice_to_nonneg stripping_rule_def split: sum.splits)
next
  assume "int (length T) \<le> m"
  then show "decode_tokens self T (Some m) False =
      (case tokenizer_decode self T of Inl e \<Rightarrow> Inl e | Inr s \<Rightarrow> Inr (rstrip s))"
    by (simp add: decode_tokens_Some_rule slice_to_all stripping_rule_def split: sum.splits)
qed

theorem decode_tokens_plain_truncation_witness:
  "(0::int) \<le> 4 \<and>
   decode_tokens (provider_with codepoint_decode) (ascii_tokens ''ab  cd'') (Some 4) False
     = Inr (ascii ''ab'') \<and>
   int (length (ascii_tokens ''ab  cd'')) \<le> 9 \<and>
   decode_tokens (provider_with codepoint_decode) (ascii_tokens ''ab  cd'') (Some 9) False
     = Inr (ascii ''ab  cd'')"
  using decode_tokens_plain_truncation [where m = 4
      and self = "provider_with codepoint_decode" and T = "ascii_tokens ''ab  cd''"]
    decode_tokens_plain_truncation [where m = 9
      and self = "provider_with codepoint_decode" and T = "ascii_tokens ''ab  cd''"]
  by (simp add: eval_defs)

text \<open>
  C6. Whatever the context length, present or absent, the text returned with the flag
  set has at most as many characters as the text returned with the flag unset.
\<close>

theorem decode_tokens_preserve_not_longer:
  assumes "decode_tokens self T m True = Inr a" and "decode_tokens self T m False = Inr b"
  shows "length a \<le> length b"
proof (cases m)
  case None
  with assms show ?thesis by (simp add: decode_tokens_def)
next
  case (Some n)
  from assms(2) Some obtain s where s: "tokenizer_decode self (slice_to T n) = Inr s"
    and b: "b = rstrip s"
    by (auto simp: decode_tokens_Some split: sum.splits)
  show ?thesis
  proof (cases "last_end_of sentence_endings s = - 1")
    case True
    with assms(1) Some s b show ?thesis by (simp add: decode_tokens_Some)
  next
    case False
    then obtain k where k: "last_end_of sentence_endings s = int k"
      using last_end_some by blast
    have "slice_to s (int k + 1) = take (Suc k) s"
      by (simp add: slice_to_def nat_add_distrib)
    with assms(1) Some s k False have "a = rstrip (take (Suc k) s)"
      by (simp add: decode_tokens_Some)
    with b show ?thesis by (simp only: rstrip_take_le)
  qed
qed

theorem decode_tokens_preserve_not_longer_witness:
  "decode_tokens (provider_with codepoint_decode) (ascii_tokens ''Hi. Go on'') (Some 9) True
     = Inr (ascii ''Hi.'') \<and>
   decode_tokens (provider_with codepoint_decode) (ascii_tokens ''Hi. Go on'') (Some 9) False
     = Inr (ascii ''Hi. Go on'') \<and>
   length (ascii ''Hi.'') \<le> length (ascii ''Hi. Go on'')"
proof -
  have a: "decode_tokens (provider_with codepoint_decode) (ascii_tokens ''Hi. Go on'')
      (Some 9) True = Inr (ascii ''Hi.'')"
    by (simp add: eval_defs)
  have b: "decode_tokens (provider_with codepoint_decode) (ascii_tokens ''Hi. Go on'')
      (Some 9) False = Inr (ascii ''Hi. Go on'')"
    by (simp add: eval_defs)
  from a b decode_tokens_preserve_not_longer [OF a b] show ?thesis by (intro conjI)
qed

text \<open>
  C7. When the tokenizer decodes the empty token list without failing, the method
  returns a text for the context length 0 and for the empty token list, under either
  flag; when the tokenizer decodes the empty list to the empty text, that text is empty.
\<close>

theorem decode_tokens_empty:
  assumes "tokenizer_decode self [] = Inr s"
  shows "(\<exists>r. decode_tokens self T (Some 0) ps = Inr r) \<and>
         (\<exists>r. decode_tokens self [] m ps = Inr r) \<and>
         (s = [] \<longrightarrow> decode_tokens self T (Some 0) ps = Inr [] \<and>
                     decode_tokens self [] m ps = Inr [])"
proof -
  have zero: "decode_tokens self T (Some 0) ps = Inr (stripping_rule ps s)"
    using assms by (simp add: decode_tokens_Some_rule slice_to_def)
  show ?thesis
  proof (cases m)
    case None
    have "decode_tokens self [] None ps = Inr s"
      using assms by (simp add: decode_tokens_def)
    with None zero show ?thesis by (simp add: stripping_rule_Nil)
  next
    case (Some n)
    have "decode_tokens self [] (Some n) ps = Inr (stripping_rule ps s)"
      using assms by (simp add: decode_tokens_Some_rule slice_to_Nil)
    with Some zero show ?thesis by (simp add: stripping_rule_Nil)
  qed
qed

theorem decode_tokens_empty_witness:
  "tokenizer_decode (provider_with codepoint_decode) [] = Inr [] \<and>
   decode_tokens (provider_with codepoint_decode) (ascii_tokens ''abc'') (Some 0) True = Inr [] \<and>
   decode_tokens (provider_with codepoint_decode) [] (Some 3) False = Inr []"
proof -
  have h: "tokenizer_decode (provider_with codepoint_decode) [] = Inr []"
    by (simp add: eval_defs)
  from decode_tokens_empty [OF h, where T = "ascii_tokens ''abc''" and ps = True]
  have a: "decode_tokens (provider_with codepoint_decode) (ascii_tokens ''abc'') (Some 0) True
      = Inr []"
    by blast
  from decode_tokens_empty [OF h, where m = "Some 3" and ps = False]
  have b: "decode_tokens (provider_with codepoint_decode) [] (Some 3) False = Inr []"
    by blast
  from h a b show ?thesis by (intro conjI)
qed

text \<open>
  C8. The method raises nothing of its own and catches nothing: if the tokenizer fails
  on the tokens it is given, the result is that very error, and otherwise a text is
  returned. So with a tokenizer that never fails the method always returns a text, for
  every token list, every context length (absent, or any integer) and either flag.
\<close>

theorem decode_tokens_total:
  "(case tokenizer_decode self (case m of None \<Rightarrow> T | Some n \<Rightarrow> slice_to T n) of
      Inl e \<Rightarrow> decode_tokens self T m ps = Inl e
    | Inr s \<Rightarrow> \<exists>r. decode_tokens self T m ps = Inr r) \<and>
   ((\<forall>ts. \<exists>s. tokenizer_decode self ts = Inr s) \<longrightarrow>
      (\<exists>r. decode_tokens self T m ps = Inr r))"
proof (intro conjI impI)
  show "case tokenizer_decode self (case m of None \<Rightarrow> T | Some n \<Rightarrow> slice_to T n) of
      Inl e \<Rightarrow> decode_tokens self T m ps = Inl e
    | Inr s \<Rightarrow> \<exists>r. decode_tokens self T m ps = Inr r"
  proof (cases m)
    case None
    then show ?thesis by (simp add: decode_tokens_def split: sum.splits)
  next
    case (Some n)
    then show ?thesis by (simp add: decode_tokens_Some_rule split: sum.splits)
  qed
next
  assume tot: "\<forall>ts. \<exists>s. tokenizer_decode self ts = Inr s"
  show "\<exists>r. decode_tokens self T m ps = Inr r"
  proof (cases m)
    case None
    with tot show ?thesis by (simp add: decode_tokens_def)
  next
    case (Some n)
    from tot obtain s where "tokenizer_decode self (slice_to T n) = Inr s" by blast
    with Some show ?thesis by (simp add: decode_tokens_Some_rule)
  qed
qed

theorem decode_tokens_total_witness:
  "(\<forall>ts. \<exists>s. tokenizer_decode (provider_with codepoint_decode) ts = Inr s) \<and>
   (\<exists>r. decode_tokens (provider_with codepoint_decode) (ascii_tokens ''Hi. Go'') (Some 4) True
      = Inr r) \<and>
   decode_tokens (provider_with strict_decode) [97, - 5, 98] (Some 2) True
     = Inl (InvalidToken (- 5))"
proof -
  have t: "\<forall>ts. \<exists>s. tokenizer_decode (provider_with codepoint_decode) ts = Inr s"
    by (simp add: provider_with_def codepoint_decode_def)
  with decode_tokens_total [where self = "provider_with codepoint_decode"
      and m = "Some 4" and T = "ascii_tokens ''Hi. Go''" and ps = True]
  have r: "\<exists>r. decode_tokens (provider_with codepoint_decode) (ascii_tokens ''Hi. Go'')
      (Some 4) True = Inr r"
    by blast
  have e: "tokenizer_decode (provider_with strict_decode)
      (case Some 2 of None \<Rightarrow> [97, - 5, 98] | Some n \<Rightarrow> slice_to [97, - 5, 98] n)
      = Inl (InvalidToken (- 5))"
    by (simp add: eval_defs)
  have f: "decode_tokens (provider_with strict_decode) [97, - 5, 98] (Some 2) True
     = Inl (InvalidToken (- 5))"
    using decode_tokens_total [where self = "provider_with strict_decode"
        and m = "Some 2" and T = "[97, - 5, 98]" and ps = True]
    by (simp only: e sum.case)
  from t r f show ?thesis by (intro conjI)
qed

text \<open>
  C10. With a context length and the flag set, if a marker occurs in the truncated text
  then the result is not empty and its last character is one of the six terminator
  characters; the result ends at the first character of a marker occurrence, so the
  space that closes an ASCII marker is not part of it.
\<close>

theorem decode_tokens_ends_with_terminator:
  assumes "0 \<le> m" and "tokenizer_decode self (take (nat m) T) = Inr s"
    and "e \<in> set sentence_endings" and "occurs_at e s i"
  shows "\<exists>r k e'. decode_tokens self T (Some m) True = Inr r \<and> r \<noteq> [] \<and>
           last r \<in> {46, 33, 63, 12290, 65281, 65311} \<and> last r \<noteq> 32 \<and>
           e' \<in> set sentence_endings \<and> occurs_at e' s k \<and>
           r = take (Suc k) s \<and> last r = hd e'"
proof -
  have dec: "tokenizer_decode self (slice_to T m) = Inr s"
    using assms(1,2) by (simp add: slice_to_nonneg)
  have "last_end_of sentence_endings s \<noteq> - 1"
    using assms(3,4) last_end_none_iff [of s] by blast
  then obtain k e' where ke: "last_end_of sentence_endings s = int k"
    "e' \<in> set sentence_endings" "occurs_at e' s k"
    "\<forall>e''\<in>set sentence_endings. \<forall>i. occurs_at e'' s i \<longrightarrow> i \<le> k"
    using last_end_some by blast
  have sl: "slice_to s (int k + 1) = take (Suc k) s"
    by (simp add: slice_to_def nat_add_distrib)
  have res: "decode_tokens self T (Some m) True = Inr (take (Suc k) s)"
    using dec ke(1) sl snap_text(1) [OF ke(2,3)] by (simp add: decode_tokens_Some)
  have klt: "k < length s" by (rule occurs_at_hd(1) [OF ke(2,3)])
  have sk: "s ! k = hd e'" by (rule occurs_at_hd(2) [OF ke(2,3)])
  have ne: "take (Suc k) s \<noteq> []" using klt by (cases s) simp_all
  have lst: "last (take (Suc k) s) = hd e'" by (rule snap_text(3) [OF ke(2,3)])
  have mem: "hd e' \<in> {46, 33, 63, 12290, 65281, 65311}"
    using ke(2) by (auto simp: sentence_endings_def)
  have "decode_tokens self T (Some m) True = Inr (take (Suc k) s) \<and> take (Suc k) s \<noteq> [] \<and>
      last (take (Suc k) s) \<in> {46, 33, 63, 12290, 65281, 65311} \<and>
      last (take (Suc k) s) \<noteq> 32 \<and>
      e' \<in> set sentence_endings \<and> occurs_at e' s k \<and>
      take (Suc k) s = take (Suc k) s \<and> last (take (Suc k) s) = hd e'"
    using res ne mem ke(2,3) by (auto simp only: lst)
  then show ?thesis by (intro exI)
qed

theorem decode_tokens_ends_with_terminator_witness:
  "(0::int) \<le> 6 \<and>
   tokenizer_decode (provider_with codepoint_decode)
     (take (nat 6) (ascii_tokens ''Hi! Go on'')) = Inr (ascii ''Hi! Go'') \<and>
   [33, 32] \<in> set sentence_endings \<and>
   occurs_at [33, 32] (ascii ''Hi! Go'') 2 \<and>
   (\<exists>r k e'. decode_tokens (provider_with codepoint_decode) (ascii_tokens ''Hi! Go on'')
       (Some 6) True = Inr r \<and> r \<noteq> [] \<and> last r \<in> {46, 33, 63, 12290, 65281, 65311} \<and>
       last r \<noteq> 32 \<and> e' \<in> set sentence_endings \<and> occurs_at e' (ascii ''Hi! Go'') k \<and>
       r = take (Suc k) (ascii ''Hi! Go'') \<and> last r = hd e') \<and>
   decode_tokens (provider_with codepoint_decode) (ascii_tokens ''Hi! Go on'') (Some 6) True
     = Inr (ascii ''Hi!'')"
proof -
  have m: "(0::int) \<le> 6" by simp
  have d: "tokenizer_decode (provider_with codepoint_decode)
      (take (nat 6) (ascii_tokens ''Hi! Go on'')) = Inr (ascii ''Hi! Go'')"
    by (simp add: eval_defs)
  have e: "[33, 32] \<in> set sentence_endings" by (simp add: sentence_endings_def)
  have o: "occurs_at [33, 32] (ascii ''Hi! Go'') 2" by (simp add: eval_defs)
  have r: "decode_tokens (provider_with codepoint_decode) (ascii_tokens ''Hi! Go on'')
      (Some 6) True = Inr (ascii ''Hi!'')"
    by (simp add: eval_defs)
  from m d e o decode_tokens_ends_with_terminator [OF m d e o] r
  show ?thesis by (intro conjI)
qed

end
